theory Spec2Isabelle
  imports Main "HOL-Library.AList" "HOL-Library.Sublist"
begin

section \<open>Data model of the RRUG core engine\<close>

text \<open>
  The engine (\<^verbatim>\<open>rrug_core.py\<close>) keeps one dictionary per scanned bone collection.
  The dictionary written by \<^verbatim>\<open>run_structure_scanner\<close> becomes the record \<open>node\<close>;
  the optional key \<^verbatim>\<open>"overflow"\<close> is read everywhere with
  \<^verbatim>\<open>node.get("overflow", False)\<close>, so it is a field whose default is \<open>False\<close>.
  \<^verbatim>\<open>node_map\<close> is a Python \<^verbatim>\<open>dict\<close>; the guards iterate over it in insertion order,
  so it is an association list, read with \<open>map_of\<close> and written with \<open>AList.update\<close>
  (which replaces in place or appends, as a \<^verbatim>\<open>dict\<close> does).
\<close>

datatype ctx = CTX_VIS | CTX_PROP | CTX_SNAP | CTX_INTERNAL

record link_info =
  partner :: string
  is_source :: bool

record node =
  name :: string
  parent :: "string option"
  children :: "string list"
  is_visible :: bool
  is_solo :: bool
  label :: string
  active_flags :: "string set"
  flag_list :: "(string \<times> string) list"
  icon_name :: "string option"
  is_valid :: bool
  ui_layout :: "string list list"
  link_meta :: "link_info option"
  tree_type :: "ctx option"
  overflow :: bool

type_synonym node_map = "(string \<times> node) list"

text \<open>\<^verbatim>\<open>node_map.get(name, {}).get("active_flags", set())\<close>\<close>

definition flags_of :: "node_map \<Rightarrow> string \<Rightarrow> string set" where
  "flags_of nm k = (case map_of nm k of None \<Rightarrow> {} | Some nd \<Rightarrow> active_flags nd)"

section \<open>Layout compiler: row grouping\<close>

text \<open>
  \<^verbatim>\<open>_helper_generate_clean_layout(node_names, node_map)\<close>: the loop state is the pair
  \<^verbatim>\<open>(layout_rows, current_row_buffer)\<close>; one iteration is \<open>clean_layout_step\<close>.
\<close>

definition clean_layout_step ::
  "node_map \<Rightarrow> string list list \<times> string list \<Rightarrow> string \<Rightarrow> string list list \<times> string list" where
  "clean_layout_step nm st k =
     (let current_row_buffer = snd st @ [k] in
      if ''JOIN'' \<notin> flags_of nm k then (fst st @ [current_row_buffer], [])
      else (fst st, current_row_buffer))"

definition helper_generate_clean_layout :: "string list \<Rightarrow> node_map \<Rightarrow> string list list" where
  "helper_generate_clean_layout node_names nm =
     (let st = foldl (clean_layout_step nm) ([], []) node_names in
      if snd st \<noteq> [] then fst st @ [snd st] else fst st)"

text \<open>
  The row-grouping law in the words of the specification: a maximal run of consecutive
  join-flagged ids followed by one id without the flag is one row; an id without the
  flag that follows a closed row is a row of its own; a trailing run of join-flagged
  ids is a last row. Written by recursion from the right, with no buffer.
\<close>

fun join_rows_spec :: "('a \<Rightarrow> bool) \<Rightarrow> 'a list \<Rightarrow> 'a list list" where
  "join_rows_spec J [] = []"
| "join_rows_spec J (x # xs) =
     (if J x then (case join_rows_spec J xs of [] \<Rightarrow> [[x]] | r # rs \<Rightarrow> (x # r) # rs)
      else [x] # join_rows_spec J xs)"

definition attach_buffer :: "'a list \<Rightarrow> 'a list list \<Rightarrow> 'a list list" where
  "attach_buffer buf rs =
     (if buf = [] then rs else (case rs of [] \<Rightarrow> [buf] | r # rs' \<Rightarrow> (buf @ r) # rs'))"

definition mk_node :: "string \<Rightarrow> string set \<Rightarrow> node" where
  "mk_node k fl = \<lparr> name = k, parent = None, children = [], is_visible = True, is_solo = False,
     label = k, active_flags = fl, flag_list = [], icon_name = None, is_valid = True,
     ui_layout = [], link_meta = None, tree_type = None, overflow = False \<rparr>"

section \<open>Layout compiler: link resolution\<close>

text \<open>
  \<^verbatim>\<open>_helper_resolve_links(node_names, node_map)\<close> walks the index \<^verbatim>\<open>i\<close> over
  \<^verbatim>\<open>node_names\<close> and only ever reads \<^verbatim>\<open>node_names[i]\<close> and \<^verbatim>\<open>node_names[i + 1]\<close>, so the
  loop is a recursion on the remaining suffix. Every branch ends in \<^verbatim>\<open>i += 1\<close>: the
  recursive call is always on the suffix that starts at the next name.
  \<open>set_link\<close> is the assignment \<^verbatim>\<open>node["link_meta"] = {"partner": p, "is_source": s}\<close>
  on the dictionary stored under the key.
\<close>

definition set_link :: "node_map \<Rightarrow> string \<Rightarrow> string \<Rightarrow> bool \<Rightarrow> node_map" where
  "set_link nm k p s =
     (case map_of nm k of None \<Rightarrow> nm
      | Some nd \<Rightarrow> AList.update k (nd\<lparr>link_meta := Some \<lparr>partner = p, is_source = s\<rparr>\<rparr>) nm)"

fun helper_resolve_links :: "string list \<Rightarrow> node_map \<Rightarrow> node_map" where
  "helper_resolve_links [] nm = nm"
| "helper_resolve_links [curr_name] nm = nm"
| "helper_resolve_links (curr_name # next_name # rest) nm =
     (case map_of nm curr_name of
        None \<Rightarrow> helper_resolve_links (next_name # rest) nm
      | Some curr_node \<Rightarrow>
          if ''LINK'' \<in> active_flags curr_node then
            (case map_of nm next_name of
               None \<Rightarrow> helper_resolve_links (next_name # rest) nm
             | Some next_node \<Rightarrow>
                 helper_resolve_links (next_name # rest)
                   (set_link (set_link nm curr_name next_name True) next_name curr_name False))
          else helper_resolve_links (next_name # rest) nm)"

definition links_of :: "node_map \<Rightarrow> (string \<times> (string \<times> bool) option) list" where
  "links_of nm = map (\<lambda>(k, nd). (k, map_option (\<lambda>l. (partner l, is_source l)) (link_meta nd))) nm"


section \<open>Stabilization engine\<close>

text \<open>
  The guards read and write the live armature only through
  \<^verbatim>\<open>safe_get_collection(armature, name)\<close> (a lookup in \<^verbatim>\<open>armature.collections_all\<close>
  by name, \<^verbatim>\<open>None\<close> for an empty name) and the two attributes \<^verbatim>\<open>is_visible\<close> and
  \<^verbatim>\<open>is_solo\<close> of a collection, so here the armature is the list of its collections'
  names with those two attributes.
\<close>

record bone_coll =
  coll_is_visible :: bool
  coll_is_solo :: bool

type_synonym armature = "(string \<times> bone_coll) list"

definition safe_get_collection :: "armature \<Rightarrow> string \<Rightarrow> bone_coll option" where
  "safe_get_collection arm k = (if k = [] then None else map_of arm k)"

text \<open>
  \<^verbatim>\<open>_get_descendant_names\<close> recurses natively over \<^verbatim>\<open>node_map[name]["children"]\<close>,
  appending each child before its own descendants. Python bounds the depth of native
  recursion: \<open>lim\<close> is the number of nested calls of \<^verbatim>\<open>recurse\<close> still available, and
  \<open>None\<close> is the \<^verbatim>\<open>RecursionError\<close> raised when they are used up (a node map with a
  cycle among its children lists always ends there).
\<close>

fun get_descendant_names :: "nat \<Rightarrow> node_map \<Rightarrow> string \<Rightarrow> string list option" where
  "get_descendant_names 0 nm k = None"
| "get_descendant_names (Suc d) nm k =
     (case map_of nm k of None \<Rightarrow> Some []
      | Some nd \<Rightarrow>
          map_option concat
            (those (map (\<lambda>c. map_option (Cons c) (get_descendant_names d nm c)) (children nd))))"

text \<open>
  \<^verbatim>\<open>_cascade_solo_state\<close>: \<open>cascade_one\<close> is the body of the loop over
  \<^verbatim>\<open>[start_coll_name] + descendants\<close>, on the pair of the armature and the node map.
  The assignment \<^verbatim>\<open>coll.is_solo = final_state\<close> is guarded by a test that the value
  differs, which leaves the same armature as the unguarded assignment.
\<close>

definition cascade_one :: "bool \<Rightarrow> armature \<times> node_map \<Rightarrow> string \<Rightarrow> armature \<times> node_map" where
  "cascade_one new_state st k =
     (case safe_get_collection (fst st) k of
        None \<Rightarrow> st
      | Some coll \<Rightarrow>
          (let final_state =
                 (if new_state \<and> ''HIDE'' \<in> flags_of (snd st) k \<and> \<not> coll_is_visible coll
                  then False else new_state)
           in (AList.update k (coll\<lparr>coll_is_solo := final_state\<rparr>) (fst st),
               (case map_of (snd st) k of
                  None \<Rightarrow> snd st
                | Some nd \<Rightarrow> AList.update k (nd\<lparr>is_solo := final_state\<rparr>) (snd st)))))"

definition cascade_solo_state ::
  "nat \<Rightarrow> armature \<Rightarrow> node_map \<Rightarrow> string \<Rightarrow> bool \<Rightarrow> (armature \<times> node_map) option" where
  "cascade_solo_state lim arm nm start_coll_name new_state =
     (case safe_get_collection arm start_coll_name of
        None \<Rightarrow> Some (arm, nm)
      | Some start_collection \<Rightarrow>
          (case get_descendant_names lim nm start_coll_name of
             None \<Rightarrow> None
           | Some ds \<Rightarrow> Some (foldl (cascade_one new_state) (arm, nm) (start_coll_name # ds))))"

text \<open>The parent-child relation recorded in a node map; its transitive closure is descent.\<close>

definition child_rel :: "node_map \<Rightarrow> (string \<times> string) set" where
  "child_rel nm = {(p, c). \<exists>nd. map_of nm p = Some nd \<and> c \<in> set (children nd)}"




















text \<open>Example data: a parent with three children, the second hide-gated and invisible.\<close>

definition ex_arm :: armature where
  "ex_arm = [(''P'', \<lparr>coll_is_visible = True, coll_is_solo = False\<rparr>),
             (''A'', \<lparr>coll_is_visible = True, coll_is_solo = False\<rparr>),
             (''B'', \<lparr>coll_is_visible = False, coll_is_solo = False\<rparr>),
             (''C'', \<lparr>coll_is_visible = True, coll_is_solo = False\<rparr>)]"

definition ex_nm :: node_map where
  "ex_nm = [(''P'', (mk_node ''P'' {})\<lparr>children := [''A'', ''B'', ''C'']\<rparr>),
            (''A'', (mk_node ''A'' {})\<lparr>parent := Some ''P''\<rparr>),
            (''B'', (mk_node ''B'' {''HIDE''})\<lparr>parent := Some ''P'', is_visible := False\<rparr>),
            (''C'', (mk_node ''C'' {})\<lparr>parent := Some ''P''\<rparr>)]"

text \<open>Example data: a hide-gated, invisible, un-soloed root whose only child is soloed.\<close>

definition cap_arm :: armature where
  "cap_arm = [(''P'', \<lparr>coll_is_visible = False, coll_is_solo = False\<rparr>),
              (''C'', \<lparr>coll_is_visible = True, coll_is_solo = True\<rparr>)]"

definition cap_nm :: node_map where
  "cap_nm = [(''P'', (mk_node ''P'' {''HIDE''})\<lparr>children := [''C''], is_visible := False\<rparr>),
             (''C'', (mk_node ''C'' {})\<lparr>parent := Some ''P'', is_solo := True\<rparr>)]"




text \<open>A rank that decreases along every parent-child edge of the first example.\<close>

definition ex_rank :: "string \<Rightarrow> nat" where
  "ex_rank k = (if k = ''P'' then 1 else 0)"



section \<open>Reactive cache: the polling tick\<close>

text \<open>
  The packet returned by \<^verbatim>\<open>run_structure_scanner\<close>, and the state snapshot
  \<^verbatim>\<open>current_state\<close> that \<^verbatim>\<open>rrug_ui_timer_update\<close> builds from it: one tuple
  \<^verbatim>\<open>(name, is_visible, is_solo, parent, overflow)\<close> per name of the traversal order.
  \<^verbatim>\<open>nm[name]\<close> raises \<^verbatim>\<open>KeyError\<close> for a name without a node: \<open>None\<close>.
\<close>

record scan_result =
  node_map :: node_map
  root_collection_names :: "string list"
  traversal_order :: "string list"
















section \<open>Name parser\<close>

text \<open>
  Names are Python strings; here they are lists of 8-bit characters. The characters
  for which \<^verbatim>\<open>str.isspace\<close> holds, which are also those the pattern \<^verbatim>\<open>\s\<close> matches,
  are, below 256, the twelve of \<open>whitespace_chars\<close>. \<^verbatim>\<open>str.upper\<close> maps every character
  to a string on its own; the map is a parameter \<open>up\<close> of the parser, and \<open>ascii_up\<close>
  is its restriction to the ASCII letters, used in the examples.
\<close>

definition whitespace_chars :: "char list" where
  "whitespace_chars = [CHR 0x09, CHR 0x0A, CHR 0x0B, CHR 0x0C, CHR 0x0D, CHR 0x1C, CHR 0x1D,
                       CHR 0x1E, CHR 0x1F, CHR 0x20, CHR 0x85, CHR 0xA0]"

definition is_space :: "char \<Rightarrow> bool" where
  "is_space c = (c \<in> set whitespace_chars)"

definition strip :: "string \<Rightarrow> string" where
  "strip s = rev (dropWhile is_space (rev (dropWhile is_space s)))"

definition upper :: "(char \<Rightarrow> string) \<Rightarrow> string \<Rightarrow> string" where
  "upper up s = concat (map up s)"

definition ascii_up :: "char \<Rightarrow> string" where
  "ascii_up c =
     (case map_of (zip ''abcdefghijklmnopqrstuvwxyz'' ''ABCDEFGHIJKLMNOPQRSTUVWXYZ'') c of
        Some u \<Rightarrow> [u]
      | None \<Rightarrow> [c])"

text \<open>
  The two patterns, matched at the head of a string.
  \<open>match_bracket\<close> is \<^verbatim>\<open>\[([^\]]+)\]\<close>: the group and the text after the match.
  \<open>match_label\<close> is \<^verbatim>\<open>_EXPLICIT_NAME_PATTERN = \{([^}]+)\}(?:\[[^\]]+\])?\<close>: group 1 and the
  text after the match. A greedy negated class stops at the first closing character,
  and no shorter repetition is followed by it, so backtracking finds nothing more.
  \<open>search_label\<close> is \<^verbatim>\<open>.search\<close>: the leftmost match, as group 1 and the matched text.
  \<open>remove_all old s\<close> is \<^verbatim>\<open>s.replace(old, "")\<close>.
\<close>

definition match_bracket :: "string \<Rightarrow> (string \<times> string) option" where
  "match_bracket s =
     (case s of
        [] \<Rightarrow> None
      | c # t \<Rightarrow>
          if c \<noteq> CHR ''['' then None
          else (let body = takeWhile (\<lambda>x. x \<noteq> CHR '']'') t;
                    rest = dropWhile (\<lambda>x. x \<noteq> CHR '']'') t
                in if body = [] \<or> rest = [] then None else Some (body, tl rest)))"

definition match_label :: "string \<Rightarrow> (string \<times> string) option" where
  "match_label s =
     (case s of
        [] \<Rightarrow> None
      | c # t \<Rightarrow>
          if c \<noteq> CHR ''{'' then None
          else (let body = takeWhile (\<lambda>x. x \<noteq> CHR ''}'') t;
                    rest = dropWhile (\<lambda>x. x \<noteq> CHR ''}'') t
                in if body = [] \<or> rest = [] then None
                   else (case match_bracket (tl rest) of
                           None \<Rightarrow> Some (body, tl rest)
                         | Some q \<Rightarrow> Some (body, snd q))))"

fun search_label :: "string \<Rightarrow> (string \<times> string) option" where
  "search_label [] = None"
| "search_label (c # t) =
     (case match_label (c # t) of
        Some m \<Rightarrow> Some (fst m, take (length (c # t) - length (snd m)) (c # t))
      | None \<Rightarrow> search_label t)"

function remove_all :: "string \<Rightarrow> string \<Rightarrow> string" where
  "remove_all old [] = []"
| "remove_all old (c # t) =
     (if old \<noteq> [] \<and> prefix old (c # t) then remove_all old (drop (length old) (c # t))
      else c # remove_all old t)"
  by pat_completeness auto
termination
  by (relation "measure (\<lambda>(old, s). length s)") auto

text \<open>
  \<^verbatim>\<open>_FLAG_KEYS\<close> is the keys of \<^verbatim>\<open>FLAG_CONFIG\<close> sorted by decreasing length (the sort is
  stable). \<open>match_flag\<close> is
  \<^verbatim>\<open>_FLAG_TUPLE_PATTERN = \((K1|K2|...)\)(?:\s*\[([^\]]+)\])?\<close> at the head of a string:
  the first alternative that is followed by the closing parenthesis, then the optional
  parameter; it returns the flag, the parameter (empty when the group takes no part, as
  \<^verbatim>\<open>findall\<close> reports it) and the text after the match. \<open>scan_flags\<close> runs it from left to
  right over non-overlapping matches and returns what \<^verbatim>\<open>findall\<close> returns together with
  what \<^verbatim>\<open>sub("", ...)\<close> leaves.
\<close>

definition FLAG_KEYS :: "string list" where
  "FLAG_KEYS = [''INTERNALS'', ''DISPLAYS'', ''SETTINGS'', ''INLINE'', ''FILTER'', ''SNAPS'',
                ''BOARD'', ''LINK'', ''ICON'', ''JOIN'', ''HIDE'', ''SKIP'', ''TO'']"

definition match_flag :: "string \<Rightarrow> (string \<times> string \<times> string) option" where
  "match_flag s =
     (case s of
        [] \<Rightarrow> None
      | c # t \<Rightarrow>
          if c \<noteq> CHR ''('' then None
          else (case find (\<lambda>k. prefix (k @ '')'') t) FLAG_KEYS of
                  None \<Rightarrow> None
                | Some k \<Rightarrow>
                    (let rest = drop (length k + 1) t in
                     case match_bracket (dropWhile is_space rest) of
                       None \<Rightarrow> Some (k, [], rest)
                     | Some q \<Rightarrow> Some (k, fst q, snd q))))"

lemma match_bracket_shorter: "match_bracket s = Some q \<Longrightarrow> length (snd q) < length s"
proof -
  assume a: "match_bracket s = Some q"
  then obtain c t where s: "s = c # t" by (cases s) (auto simp: match_bracket_def)
  have "length (dropWhile (\<lambda>x. x \<noteq> CHR '']'') t) \<le> length t" by (rule length_dropWhile_le)
  with a s show ?thesis
    by (auto simp: match_bracket_def Let_def split: if_splits)
qed

lemma match_flag_shorter: "match_flag s = Some m \<Longrightarrow> length (snd (snd m)) < length s"
proof -
  assume a: "match_flag s = Some m"
  then obtain c t where s: "s = c # t" by (cases s) (auto simp: match_flag_def)
  from a s obtain k where k: "find (\<lambda>k. prefix (k @ '')'') t) FLAG_KEYS = Some k"
    by (auto simp: match_flag_def split: if_splits option.splits)
  let ?rest = "drop (length k + 1) t"
  have r: "length ?rest \<le> length t" by simp
  show ?thesis
  proof (cases "match_bracket (dropWhile is_space ?rest)")
    case None
    with a s k r show ?thesis by (auto simp: match_flag_def Let_def split: if_splits)
  next
    case (Some q)
    from match_bracket_shorter [OF Some] have "length (snd q) < length (dropWhile is_space ?rest)" .
    also have "\<dots> \<le> length ?rest" by (rule length_dropWhile_le)
    finally have "length (snd q) < length (c # t)" using r by simp
    with a s k Some show ?thesis by (auto simp: match_flag_def Let_def split: if_splits)
  qed
qed

function scan_flags :: "string \<Rightarrow> (string \<times> string) list \<times> string" where
  "scan_flags [] = ([], [])"
| "scan_flags (c # t) =
     (case match_flag (c # t) of
        Some m \<Rightarrow> (let r = scan_flags (snd (snd m)) in ((fst m, fst (snd m)) # fst r, snd r))
      | None \<Rightarrow> (let r = scan_flags t in (fst r, c # snd r)))"
  by pat_completeness auto
termination
  by (relation "measure length") (auto dest: match_flag_shorter)

text \<open>
  \<^verbatim>\<open>FLAG_CONFIG\<close>: the \<^verbatim>\<open>"params"\<close> entry is \<^verbatim>\<open>None\<close>, a string or a set; the only
  validator is ICON's membership test in the host's icon names, a parameter \<open>icons\<close>.
\<close>

datatype param_domain = No_params | Str_param string | Set_params "string list"

record flag_rules =
  params :: param_domain
  validator :: "(string \<Rightarrow> bool) option"

definition DYNAMIC_PARAM :: string where
  "DYNAMIC_PARAM = ''__DYNAMIC__''"

definition FLAG_CONFIG :: "string set \<Rightarrow> string \<Rightarrow> flag_rules option" where
  "FLAG_CONFIG icons f =
     (if f = ''ICON'' then Some \<lparr>params = Str_param DYNAMIC_PARAM, validator = Some (\<lambda>x. x \<in> icons)\<rparr>
      else if f = ''FILTER'' then Some \<lparr>params = Set_params [''IFHIDDEN''], validator = None\<rparr>
      else if f \<in> set [''INLINE'', ''LINK'', ''JOIN'', ''HIDE'', ''TO'', ''SKIP'', ''DISPLAYS'',
                         ''SETTINGS'', ''SNAPS'', ''INTERNALS'', ''BOARD'']
      then Some \<lparr>params = No_params, validator = None\<rparr>
      else None)"

text \<open>
  The body of the loop over the tuples. \<open>normalize_param\<close> is the block under
  \<^verbatim>\<open>if p:\<close>; \<open>check_params\<close> is the first \<^verbatim>\<open>if/elif\<close> on the parameter domain;
  \<open>check_flag\<close> adds the validator and returns the message with whether the validator
  rejected the parameter.
\<close>

definition quote :: char where
  "quote = CHR 0x27"

definition normalize_param :: "(char \<Rightarrow> string) \<Rightarrow> string \<Rightarrow> string" where
  "normalize_param up p =
     (if p = [] then p
      else (let q = strip p in
            if q \<noteq> [] \<and> hd q = quote \<and> last q = quote then butlast (tl q) else upper up q))"

definition check_params :: "param_domain \<Rightarrow> string \<Rightarrow> string \<Rightarrow> string option" where
  "check_params c f p =
     (case c of
        No_params \<Rightarrow> if p \<noteq> [] then Some (''SYNTAX ERROR: '' @ f @ '' takes no parameters'') else None
      | Str_param x \<Rightarrow>
          if p \<noteq> [] \<and> \<not> (x = DYNAMIC_PARAM) \<and> \<not> (p = x)
          then Some (''SYNTAX ERROR: '' @ [quote] @ p @ [quote] @ '' is not valid for '' @ f) else None
      | Set_params xs \<Rightarrow>
          if p \<noteq> [] \<and> \<not> (DYNAMIC_PARAM \<in> set xs) \<and> \<not> (p \<in> set xs)
          then Some (''SYNTAX ERROR: '' @ [quote] @ p @ [quote] @ '' is not valid for '' @ f) else None)"

definition check_flag :: "flag_rules \<Rightarrow> string \<Rightarrow> string \<Rightarrow> string option \<times> bool" where
  "check_flag rules f p =
     (let msg = check_params (params rules) f p in
      if msg = None then
        (case validator rules of
           None \<Rightarrow> (None, False)
         | Some v \<Rightarrow>
             if p = [] then (Some (''SYNTAX ERROR: '' @ f @ '' missing parameter''), False)
             else if \<not> v p then (Some (''SYNTAX ERROR: '' @ [quote] @ p @ [quote] @ '' invalid''), True)
             else (None, False))
      else (msg, False))"

record parse_state =
  st_valid :: bool
  st_err :: "string option"
  st_icon :: "string option"
  st_flags :: "(string \<times> string) list"
  st_active :: "string set"

definition parse_flag ::
  "(char \<Rightarrow> string) \<Rightarrow> string set \<Rightarrow> parse_state \<Rightarrow> string \<times> string \<Rightarrow> parse_state" where
  "parse_flag up icons st t =
     (let f = strip (fst t) in
      case FLAG_CONFIG icons f of
        None \<Rightarrow> st
      | Some rules \<Rightarrow>
          (let p = normalize_param up (snd t);
               chk = check_flag rules f p;
               icon1 = (if snd chk \<and> f = ''ICON'' then Some ''ERROR'' else st_icon st)
           in \<lparr> st_valid = (if fst chk \<noteq> None then False else st_valid st),
                st_err = (if fst chk \<noteq> None then fst chk else st_err st),
                st_icon = (if fst chk = None \<and> f = ''ICON'' then Some p else icon1),
                st_flags = st_flags st @ [(f, p)],
                st_active = insert f (st_active st) \<rparr>))"

text \<open>
  \<^verbatim>\<open>_parse_collection_name\<close>. The fields of the returned dictionary carry the prefix
  \<open>p_\<close>, since the node record has fields of the same names.
\<close>

definition without_label :: "string \<Rightarrow> string" where
  "without_label raw_name =
     (case search_label raw_name of None \<Rightarrow> raw_name | Some m \<Rightarrow> remove_all (snd m) raw_name)"

definition flag_tuples :: "string \<Rightarrow> (string \<times> string) list" where
  "flag_tuples raw_name = fst (scan_flags (without_label raw_name))"

definition leftover_text :: "string \<Rightarrow> string" where
  "leftover_text raw_name = strip (snd (scan_flags (without_label raw_name)))"

record parse_result =
  p_id :: string
  p_clean_name :: string
  p_flag_list :: "(string \<times> string) list"
  p_active_flags :: "string set"
  p_icon_name :: "string option"
  p_is_valid :: bool
  p_error_msg :: "string option"

definition parse_collection_name :: "(char \<Rightarrow> string) \<Rightarrow> string set \<Rightarrow> string \<Rightarrow> parse_result" where
  "parse_collection_name up icons raw_name =
     (let clean = (case search_label raw_name of None \<Rightarrow> [] | Some m \<Rightarrow> strip (fst m));
          leftover = leftover_text raw_name;
          st0 = \<lparr> st_valid = (leftover = []),
                  st_err = (if leftover \<noteq> [] then Some (''SYNTAX ERROR: '' @ leftover) else None),
                  st_icon = None, st_flags = [], st_active = {} \<rparr>;
          st = foldl (parse_flag up icons) st0 (flag_tuples raw_name)
      in \<lparr> p_id = raw_name,
           p_clean_name = (if leftover \<noteq> [] then [] else clean),
           p_flag_list = st_flags st,
           p_active_flags = st_active st,
           p_icon_name = st_icon st,
           p_is_valid = st_valid st,
           p_error_msg = st_err st \<rparr>)"

text \<open>The message the loop body computes for one tuple, if any.\<close>

definition flag_msg :: "(char \<Rightarrow> string) \<Rightarrow> string set \<Rightarrow> string \<times> string \<Rightarrow> string option" where
  "flag_msg up icons t =
     (case FLAG_CONFIG icons (strip (fst t)) of
        None \<Rightarrow> None
      | Some rules \<Rightarrow> fst (check_flag rules (strip (fst t)) (normalize_param up (snd t))))"

section \<open>Tree scanner\<close>














section \<open>Row grouping: proofs\<close>

lemma clean_layout_fold:
  "(let st = foldl (clean_layout_step nm) (rows, buf) ns in
      if snd st \<noteq> [] then fst st @ [snd st] else fst st)
   = rows @ attach_buffer buf (join_rows_spec (\<lambda>k. ''JOIN'' \<in> flags_of nm k) ns)"
proof (induction ns arbitrary: rows buf)
  case Nil
  show ?case by (simp add: attach_buffer_def)
next
  case (Cons x xs)
  show ?case
  proof (cases "''JOIN'' \<in> flags_of nm x")
    case True
    then show ?thesis
      using Cons.IH [of rows "buf @ [x]"]
      by (simp add: clean_layout_step_def attach_buffer_def Let_def split: list.splits)
  next
    case False
    then show ?thesis
      using Cons.IH [of "rows @ [buf @ [x]]" "[]"]
      by (simp add: clean_layout_step_def attach_buffer_def Let_def)
  qed
qed

text \<open>
  C7. For every ordered list of sibling ids and every node map, the rows computed by
  \<^verbatim>\<open>_helper_generate_clean_layout\<close> are exactly the partition of the specification's
  row-grouping law, and the ids A(join), B(join), C, D, E(join), F give the rows
  [[A,B,C],[D],[E,F]].
\<close>

theorem row_grouping_law:
  "helper_generate_clean_layout ns nm = join_rows_spec (\<lambda>k. ''JOIN'' \<in> flags_of nm k) ns
   \<and> helper_generate_clean_layout [''A'', ''B'', ''C'', ''D'', ''E'', ''F'']
        [(''A'', mk_node ''A'' {''JOIN''}), (''B'', mk_node ''B'' {''JOIN''}),
         (''C'', mk_node ''C'' {}), (''D'', mk_node ''D'' {}),
         (''E'', mk_node ''E'' {''JOIN''}), (''F'', mk_node ''F'' {})]
      = [[''A'', ''B'', ''C''], [''D''], [''E'', ''F'']]"
proof -
  have gen: "\<And>ns nm. helper_generate_clean_layout ns nm
      = join_rows_spec (\<lambda>k. ''JOIN'' \<in> flags_of nm k) ns"
    using clean_layout_fold [of _ "[]" "[]"]
    by (simp add: helper_generate_clean_layout_def attach_buffer_def)
  show ?thesis
    by (rule conjI, rule gen) (simp add: gen flags_of_def mk_node_def)
qed

section \<open>Link resolution: proofs\<close>

text \<open>
  C1. Three consecutive siblings A, B, C that all carry LINK: the claim asks for the one
  pair A-B with C unlinked and for symmetric partners. The code examines B again as a
  link source after it has paired A with B: B's link is overwritten to point at C, C is
  linked to B, and A still names B as its partner although B no longer points back.
\<close>

theorem resolve_links_three_siblings:
  "links_of (helper_resolve_links [''A'', ''B'', ''C'']
      [(''A'', mk_node ''A'' {''LINK''}), (''B'', mk_node ''B'' {''LINK''}),
       (''C'', mk_node ''C'' {''LINK''})])
   = [(''A'', Some (''B'', True)), (''B'', Some (''C'', True)), (''C'', Some (''B'', False))]"
  by (simp add: set_link_def links_of_def mk_node_def)

section \<open>Stabilization engine: proofs\<close>

lemma those_map_set:
  "those (map f xs) = Some ys \<Longrightarrow>
     \<Union>(set ` set ys) = (\<Union>x\<in>set xs. set (the (f x))) \<and> (\<forall>x\<in>set xs. f x \<noteq> None)"
proof (induction xs arbitrary: ys)
  case Nil then show ?case by simp
next
  case (Cons x xs)
  from Cons.prems obtain y zs where y: "f x = Some y" and zs: "those (map f xs) = Some zs"
    and ys: "ys = y # zs" by (auto split: option.splits)
  from Cons.IH [OF zs] have "\<Union>(set ` set zs) = (\<Union>x\<in>set xs. set (the (f x)))"
    and "\<forall>x\<in>set xs. f x \<noteq> None" by auto
  with y ys show ?case by simp
qed

lemma child_rel_trancl_unfold:
  "(child_rel nm)\<^sup>+ `` {k} = (\<Union>c \<in> child_rel nm `` {k}. insert c ((child_rel nm)\<^sup>+ `` {c}))"
  by (auto intro: trancl_into_trancl2 elim: converse_tranclE)

lemma get_descendant_names_set:
  "get_descendant_names d nm k = Some ds \<Longrightarrow> set ds = (child_rel nm)\<^sup>+ `` {k}"
proof (induction d arbitrary: k ds)
  case 0 then show ?case by simp
next
  case (Suc d)
  show ?case
  proof (cases "map_of nm k")
    case None
    then have "child_rel nm `` {k} = {}" by (auto simp: child_rel_def)
    then have "(child_rel nm)\<^sup>+ `` {k} = {}"
      using child_rel_trancl_unfold [of nm k] by simp
    with None Suc.prems show ?thesis by simp
  next
    case (Some nd)
    then have ch: "child_rel nm `` {k} = set (children nd)" by (auto simp: child_rel_def)
    from Some Suc.prems obtain yss where
      th: "those (map (\<lambda>c. map_option (Cons c) (get_descendant_names d nm c)) (children nd)) = Some yss"
      and ds: "ds = concat yss" by auto
    from those_map_set [OF th]
    have u: "\<Union>(set ` set yss) = (\<Union>c\<in>set (children nd). set (the (map_option (Cons c) (get_descendant_names d nm c))))"
      and ne: "\<forall>c\<in>set (children nd). map_option (Cons c) (get_descendant_names d nm c) \<noteq> None" by auto
    have "\<And>c. c \<in> set (children nd) \<Longrightarrow>
        set (the (map_option (Cons c) (get_descendant_names d nm c))) = insert c ((child_rel nm)\<^sup>+ `` {c})"
    proof -
      fix c assume "c \<in> set (children nd)"
      with ne obtain dc where dc: "get_descendant_names d nm c = Some dc" by auto
      from Suc.IH [OF dc] dc show "set (the (map_option (Cons c) (get_descendant_names d nm c))) = insert c ((child_rel nm)\<^sup>+ `` {c})"
        by simp
    qed
    with u have "\<Union>(set ` set yss) = (\<Union>c\<in>set (children nd). insert c ((child_rel nm)\<^sup>+ `` {c}))" by simp
    then show ?thesis
      using child_rel_trancl_unfold [of nm k] ch ds by simp
  qed
qed

lemma cascade_one_arm:
  "map_of (fst (cascade_one v (arm, nm) x)) k =
     map_option (\<lambda>c. if k = x \<and> k \<noteq> []
        then c\<lparr>coll_is_solo := v \<and> \<not> (''HIDE'' \<in> flags_of nm k \<and> \<not> coll_is_visible c)\<rparr> else c)
       (map_of arm k)"
  by (cases "map_of arm k")
     (auto simp: cascade_one_def safe_get_collection_def update_conv' Let_def split: option.splits)

lemma cascade_one_nm:
  "map_of (snd (cascade_one v (arm, nm) x)) k =
     map_option (\<lambda>nd. if k = x \<and> safe_get_collection arm k \<noteq> None
        then nd\<lparr>is_solo := v \<and> \<not> (''HIDE'' \<in> active_flags nd \<and> \<not> coll_is_visible (the (map_of arm k)))\<rparr>
        else nd)
       (map_of nm k)"
  by (cases "map_of nm k")
     (auto simp: cascade_one_def safe_get_collection_def update_conv' Let_def flags_of_def
      split: option.splits)

lemma cascade_fold:
  "map_of (fst (foldl (cascade_one v) (arm, nm) ks)) k =
     map_option (\<lambda>c. if k \<in> set ks \<and> k \<noteq> []
        then c\<lparr>coll_is_solo := v \<and> \<not> (''HIDE'' \<in> flags_of nm k \<and> \<not> coll_is_visible c)\<rparr> else c)
       (map_of arm k)
   \<and> map_of (snd (foldl (cascade_one v) (arm, nm) ks)) k =
     map_option (\<lambda>nd. if k \<in> set ks \<and> safe_get_collection arm k \<noteq> None
        then nd\<lparr>is_solo := v \<and> \<not> (''HIDE'' \<in> active_flags nd \<and> \<not> coll_is_visible (the (map_of arm k)))\<rparr>
        else nd)
       (map_of nm k)"
proof (induction ks rule: rev_induct)
  case Nil
  show ?case by (simp add: option.map_ident)
next
  case (snoc x xs)
  obtain a1 n1 where s: "foldl (cascade_one v) (arm, nm) xs = (a1, n1)" by (cases "foldl (cascade_one v) (arm, nm) xs")
  from snoc s have a1: "map_of a1 k =
     map_option (\<lambda>c. if k \<in> set xs \<and> k \<noteq> []
        then c\<lparr>coll_is_solo := v \<and> \<not> (''HIDE'' \<in> flags_of nm k \<and> \<not> coll_is_visible c)\<rparr> else c)
       (map_of arm k)"
    and n1: "map_of n1 k =
     map_option (\<lambda>nd. if k \<in> set xs \<and> safe_get_collection arm k \<noteq> None
        then nd\<lparr>is_solo := v \<and> \<not> (''HIDE'' \<in> active_flags nd \<and> \<not> coll_is_visible (the (map_of arm k)))\<rparr>
        else nd)
       (map_of nm k)" by simp_all
  have fl: "flags_of n1 k = flags_of nm k"
    using n1 by (cases "map_of nm k") (simp_all add: flags_of_def)
  have sg: "(safe_get_collection a1 k \<noteq> None) = (safe_get_collection arm k \<noteq> None)"
    using a1 by (simp add: safe_get_collection_def)
  show ?case
  proof (rule conjI)
    show "map_of (fst (foldl (cascade_one v) (arm, nm) (xs @ [x]))) k =
     map_option (\<lambda>c. if k \<in> set (xs @ [x]) \<and> k \<noteq> []
        then c\<lparr>coll_is_solo := v \<and> \<not> (''HIDE'' \<in> flags_of nm k \<and> \<not> coll_is_visible c)\<rparr> else c)
       (map_of arm k)"
      using a1 fl by (cases "map_of arm k") (auto simp: s cascade_one_arm)
  next
    show "map_of (snd (foldl (cascade_one v) (arm, nm) (xs @ [x]))) k =
     map_option (\<lambda>nd. if k \<in> set (xs @ [x]) \<and> safe_get_collection arm k \<noteq> None
        then nd\<lparr>is_solo := v \<and> \<not> (''HIDE'' \<in> active_flags nd \<and> \<not> coll_is_visible (the (map_of arm k)))\<rparr>
        else nd)
       (map_of nm k)"
      using n1 a1 sg by (cases "map_of nm k"; cases "map_of arm k") (auto simp: s cascade_one_nm safe_get_collection_def)
  qed
qed

lemma those_all_Some: "\<forall>x \<in> set xs. f x \<noteq> None \<Longrightarrow> those (map f xs) \<noteq> None"
  by (induction xs) (auto split: option.splits)

lemma update_present_keys: "map_of al k = Some w \<Longrightarrow> map fst (AList.update k w' al) = map fst al"
proof -
  assume "map_of al k = Some w"
  then have "k \<in> set (map fst al)" by (auto dest: map_of_SomeD intro: rev_image_eqI)
  then show ?thesis by (simp add: update_keys)
qed

lemma descendants_ranked:
  assumes "\<forall>p c. (p, c) \<in> child_rel nm \<longrightarrow> rank c < (rank p :: nat)"
  shows "rank k < d \<Longrightarrow> get_descendant_names d nm k \<noteq> None"
proof (induction d arbitrary: k)
  case 0
  then show ?case by simp
next
  case (Suc d)
  show ?case
  proof (cases "map_of nm k")
    case None
    then show ?thesis by simp
  next
    case (Some nd)
    have "\<forall>c \<in> set (children nd). get_descendant_names d nm c \<noteq> None"
    proof
      fix c assume c: "c \<in> set (children nd)"
      with Some have "(k, c) \<in> child_rel nm" by (auto simp: child_rel_def)
      with assms have "rank c < rank k" by blast
      with Suc.prems have "rank c < d" by simp
      then show "get_descendant_names d nm c \<noteq> None" by (rule Suc.IH)
    qed
    then have "those (map (\<lambda>c. map_option (Cons c) (get_descendant_names d nm c)) (children nd)) \<noteq> None"
      by (intro those_all_Some) simp
    with Some show ?thesis by auto
  qed
qed

lemma cascade_one_keys:
  "map fst (fst (cascade_one v st k)) = map fst (fst st)
   \<and> map fst (snd (cascade_one v st k)) = map fst (snd st)"
  by (auto simp: cascade_one_def safe_get_collection_def Let_def update_present_keys
      split: option.splits if_splits)

lemma cascade_fold_keys:
  "map fst (fst (foldl (cascade_one v) st ks)) = map fst (fst st)
   \<and> map fst (snd (foldl (cascade_one v) st ks)) = map fst (snd st)"
  by (induction ks arbitrary: st) (simp_all add: cascade_one_keys)

text \<open>
  C5 (amended). When the cascade from \<open>n\<close> with value \<open>v\<close> returns and the armature holds
  \<open>n\<close>, every name of the walk (\<open>n\<close> itself and every descendant of \<open>n\<close> in the node map)
  that the armature holds has its solo state set, in the armature and in the node map, to
  \<open>v\<close>, except that for \<open>v = True\<close> a name carrying HIDE whose collection is invisible gets
  \<open>False\<close>; the exception applies to \<open>n\<close> itself as well. Nothing else changes: every
  other attribute of these names, every name outside the walk, every name of the walk
  that the armature does not hold, and the keys of both dictionaries in their order are
  as before. When the armature does not hold \<open>n\<close> the cascade changes nothing. The cascade
  returns whenever the children lists admit a rank that decreases from parent to child
  and the rank of \<open>n\<close> is below the recursion limit.
\<close>

theorem cascade_solo_state_effect:
  "(cascade_solo_state lim arm nm n v = Some (arm', nm') \<and> safe_get_collection arm n \<noteq> None \<longrightarrow>
      (\<forall>k c. (k = n \<or> (n, k) \<in> (child_rel nm)\<^sup>+) \<and> safe_get_collection arm k = Some c \<longrightarrow>
            map_of arm' k
              = Some (c\<lparr>coll_is_solo := v \<and> \<not> (''HIDE'' \<in> flags_of nm k \<and> \<not> coll_is_visible c)\<rparr>)
          \<and> map_of nm' k
              = map_option (\<lambda>nd. nd\<lparr>is_solo := v \<and> \<not> (''HIDE'' \<in> flags_of nm k \<and> \<not> coll_is_visible c)\<rparr>)
                  (map_of nm k))
      \<and> (\<forall>k. \<not> ((k = n \<or> (n, k) \<in> (child_rel nm)\<^sup>+) \<and> safe_get_collection arm k \<noteq> None) \<longrightarrow>
            map_of arm' k = map_of arm k \<and> map_of nm' k = map_of nm k)
      \<and> map fst arm' = map fst arm \<and> map fst nm' = map fst nm)
   \<and> (safe_get_collection arm n = None \<longrightarrow> cascade_solo_state lim arm nm n v = Some (arm, nm))
   \<and> ((\<forall>p c. (p, c) \<in> child_rel nm \<longrightarrow> rank c < (rank p :: nat)) \<and> rank n < lim \<longrightarrow>
        cascade_solo_state lim arm nm n v \<noteq> None)"
proof (intro conjI impI)
  assume a: "cascade_solo_state lim arm nm n v = Some (arm', nm') \<and> safe_get_collection arm n \<noteq> None"
  then obtain ds where ds: "get_descendant_names lim nm n = Some ds"
    and res: "foldl (cascade_one v) (arm, nm) (n # ds) = (arm', nm')"
    by (auto simp: cascade_solo_state_def split: option.splits)
  from get_descendant_names_set [OF ds]
  have mem: "\<And>k. (k \<in> set (n # ds)) = (k = n \<or> (n, k) \<in> (child_rel nm)\<^sup>+)" by auto
  have A: "\<And>k. map_of arm' k =
     map_option (\<lambda>c. if k \<in> set (n # ds) \<and> k \<noteq> []
        then c\<lparr>coll_is_solo := v \<and> \<not> (''HIDE'' \<in> flags_of nm k \<and> \<not> coll_is_visible c)\<rparr> else c)
       (map_of arm k)"
    using cascade_fold [of v arm nm "n # ds"] by (simp only: res fst_conv)
  have N: "\<And>k. map_of nm' k =
     map_option (\<lambda>nd. if k \<in> set (n # ds) \<and> safe_get_collection arm k \<noteq> None
        then nd\<lparr>is_solo := v \<and> \<not> (''HIDE'' \<in> active_flags nd \<and> \<not> coll_is_visible (the (map_of arm k)))\<rparr>
        else nd)
       (map_of nm k)"
    using cascade_fold [of v arm nm "n # ds"] by (simp only: res snd_conv)
  show "\<forall>k c. (k = n \<or> (n, k) \<in> (child_rel nm)\<^sup>+) \<and> safe_get_collection arm k = Some c \<longrightarrow>
            map_of arm' k
              = Some (c\<lparr>coll_is_solo := v \<and> \<not> (''HIDE'' \<in> flags_of nm k \<and> \<not> coll_is_visible c)\<rparr>)
          \<and> map_of nm' k
              = map_option (\<lambda>nd. nd\<lparr>is_solo := v \<and> \<not> (''HIDE'' \<in> flags_of nm k \<and> \<not> coll_is_visible c)\<rparr>)
                  (map_of nm k)"
  proof (intro allI impI conjI)
    fix k c assume h: "(k = n \<or> (n, k) \<in> (child_rel nm)\<^sup>+) \<and> safe_get_collection arm k = Some c"
    then have in_walk: "k \<in> set (n # ds)" using mem by blast
    from h have ne: "k \<noteq> []" and ak: "map_of arm k = Some c"
      by (auto simp: safe_get_collection_def split: if_splits)
    from in_walk ne ak show "map_of arm' k
              = Some (c\<lparr>coll_is_solo := v \<and> \<not> (''HIDE'' \<in> flags_of nm k \<and> \<not> coll_is_visible c)\<rparr>)"
      by (simp only: A) simp
    from in_walk h ak show "map_of nm' k
              = map_option (\<lambda>nd. nd\<lparr>is_solo := v \<and> \<not> (''HIDE'' \<in> flags_of nm k \<and> \<not> coll_is_visible c)\<rparr>)
                  (map_of nm k)"
      by (cases "map_of nm k") (simp_all only: N, simp_all add: flags_of_def)
  qed
  show "\<forall>k. \<not> ((k = n \<or> (n, k) \<in> (child_rel nm)\<^sup>+) \<and> safe_get_collection arm k \<noteq> None) \<longrightarrow>
            map_of arm' k = map_of arm k \<and> map_of nm' k = map_of nm k"
  proof (intro allI impI conjI)
    fix k assume h: "\<not> ((k = n \<or> (n, k) \<in> (child_rel nm)\<^sup>+) \<and> safe_get_collection arm k \<noteq> None)"
    then have c: "k \<notin> set (n # ds) \<or> safe_get_collection arm k = None" using mem by blast
    then have "k \<notin> set (n # ds) \<or> k = [] \<or> map_of arm k = None"
      by (auto simp: safe_get_collection_def split: if_splits)
    then show "map_of arm' k = map_of arm k"
      by (cases "map_of arm k") (simp_all only: A, auto)
    from c show "map_of nm' k = map_of nm k"
      by (cases "map_of nm k") (simp_all only: N, auto)
  qed
  show "map fst arm' = map fst arm" "map fst nm' = map fst nm"
    using cascade_fold_keys [of v "(arm, nm)" "n # ds"] by (simp_all only: res fst_conv snd_conv)
next
  assume "safe_get_collection arm n = None"
  then show "cascade_solo_state lim arm nm n v = Some (arm, nm)"
    by (simp add: cascade_solo_state_def)
next
  assume r: "(\<forall>p c. (p, c) \<in> child_rel nm \<longrightarrow> rank c < rank p) \<and> rank n < lim"
  then have "get_descendant_names lim nm n \<noteq> None"
    using descendants_ranked [of nm rank n lim] by blast
  then show "cascade_solo_state lim arm nm n v \<noteq> None"
    by (auto simp: cascade_solo_state_def split: option.splits)
qed

theorem cascade_solo_state_effect_witness:
  "ex_rank ''A'' < ex_rank ''P'' \<and> ex_rank ''B'' < ex_rank ''P'' \<and> ex_rank ''C'' < ex_rank ''P''
   \<and> ex_rank ''P'' < 2
   \<and> safe_get_collection ex_arm ''P'' \<noteq> None
   \<and> (\<exists>arm' nm'. cascade_solo_state 2 ex_arm ex_nm ''P'' True = Some (arm', nm')
        \<and> map_option coll_is_solo (map_of arm' ''P'') = Some True
        \<and> map_option coll_is_solo (map_of arm' ''A'') = Some True
        \<and> map_option coll_is_solo (map_of arm' ''B'') = Some False
        \<and> map_option coll_is_solo (map_of arm' ''C'') = Some True
        \<and> map_option is_solo (map_of nm' ''B'') = Some False
        \<and> map_option is_solo (map_of nm' ''C'') = Some True)"
proof -
  have r: "\<forall>p c. (p, c) \<in> child_rel ex_nm \<longrightarrow> ex_rank c < ex_rank p"
    by (auto simp: child_rel_def ex_nm_def mk_node_def ex_rank_def split: if_splits)
  have l: "ex_rank ''P'' < 2" by (simp add: ex_rank_def)
  have p: "safe_get_collection ex_arm ''P'' \<noteq> None"
    by (simp add: safe_get_collection_def ex_arm_def)
  note t = cascade_solo_state_effect [of 2 ex_arm ex_nm "''P''" True _ _ ex_rank]
  from t r l have "cascade_solo_state 2 ex_arm ex_nm ''P'' True \<noteq> None" by blast
  then obtain arm' nm' where h: "cascade_solo_state 2 ex_arm ex_nm ''P'' True = Some (arm', nm')"
    by auto
  have d: "(''P'', k) \<in> (child_rel ex_nm)\<^sup>+" if "k \<in> {''A'', ''B'', ''C''}" for k
    using that by (intro r_into_trancl) (auto simp: child_rel_def ex_nm_def mk_node_def)
  from t [of arm' nm'] h p have e: "\<And>k c. (k = ''P'' \<or> (''P'', k) \<in> (child_rel ex_nm)\<^sup>+)
        \<and> safe_get_collection ex_arm k = Some c \<Longrightarrow>
      map_of arm' k
        = Some (c\<lparr>coll_is_solo := True \<and> \<not> (''HIDE'' \<in> flags_of ex_nm k \<and> \<not> coll_is_visible c)\<rparr>)
      \<and> map_of nm' k
        = map_option (\<lambda>nd. nd\<lparr>is_solo := True \<and> \<not> (''HIDE'' \<in> flags_of ex_nm k \<and> \<not> coll_is_visible c)\<rparr>)
            (map_of ex_nm k)"
    by blast
  have "map_option coll_is_solo (map_of arm' ''P'') = Some True"
    using e [of "''P''" "\<lparr>coll_is_visible = True, coll_is_solo = False\<rparr>"]
    by (simp add: safe_get_collection_def ex_arm_def flags_of_def ex_nm_def mk_node_def)
  moreover have "map_option coll_is_solo (map_of arm' ''A'') = Some True"
    using e [of "''A''" "\<lparr>coll_is_visible = True, coll_is_solo = False\<rparr>"] d [of "''A''"]
    by (simp add: safe_get_collection_def ex_arm_def flags_of_def ex_nm_def mk_node_def)
  moreover have "map_option coll_is_solo (map_of arm' ''B'') = Some False
      \<and> map_option is_solo (map_of nm' ''B'') = Some False"
    using e [of "''B''" "\<lparr>coll_is_visible = False, coll_is_solo = False\<rparr>"] d [of "''B''"]
    by (simp add: safe_get_collection_def ex_arm_def flags_of_def ex_nm_def mk_node_def)
  moreover have "map_option coll_is_solo (map_of arm' ''C'') = Some True
      \<and> map_option is_solo (map_of nm' ''C'') = Some True"
    using e [of "''C''" "\<lparr>coll_is_visible = True, coll_is_solo = False\<rparr>"] d [of "''C''"]
    by (simp add: safe_get_collection_def ex_arm_def flags_of_def ex_nm_def mk_node_def)
  moreover have "ex_rank ''A'' < ex_rank ''P''" "ex_rank ''B'' < ex_rank ''P''"
    "ex_rank ''C'' < ex_rank ''P''"
    by (simp_all add: ex_rank_def)
  ultimately show ?thesis using h p l by blast
qed

text \<open>
  C5 as stated lets the start node take the value \<open>v\<close> unconditionally. Cascading
  \<open>True\<close> from a node that is itself hide-gated and invisible leaves that node un-soloed.
\<close>

theorem cascade_hidden_start_counterexample:
  "map_option (\<lambda>st. (map_option coll_is_solo (map_of (fst st) ''P''),
                       map_option is_solo (map_of (snd st) ''P'')))
     (cascade_solo_state 2 cap_arm cap_nm ''P'' True)
   = Some (Some False, Some False)"
  by (simp add: cascade_solo_state_def cascade_one_def safe_get_collection_def flags_of_def
      cap_arm_def cap_nm_def mk_node_def numeral_2_eq_2)


































section \<open>The polling tick: proofs\<close>







section \<open>Name parser: proofs\<close>

lemmas parse_eval = parse_collection_name_def leftover_text_def flag_tuples_def without_label_def
  match_label_def match_flag_def match_bracket_def FLAG_KEYS_def is_space_def whitespace_chars_def
  strip_def parse_flag_def FLAG_CONFIG_def normalize_param_def check_flag_def check_params_def
  DYNAMIC_PARAM_def quote_def upper_def ascii_up_def Let_def

lemma match_flag_key: "match_flag s = Some m \<Longrightarrow> fst m \<in> set FLAG_KEYS"
proof -
  assume a: "match_flag s = Some m"
  then obtain c t where s: "s = c # t" by (cases s) (auto simp: match_flag_def)
  from a s obtain k where k: "find (\<lambda>k. prefix (k @ '')'') t) FLAG_KEYS = Some k" and "fst m = k"
    by (auto simp: match_flag_def Let_def split: if_splits option.splits)
  moreover from k have "k \<in> set FLAG_KEYS" by (auto simp: find_Some_iff)
  ultimately show ?thesis by simp
qed

lemma scan_flags_keys: "t \<in> set (fst (scan_flags s)) \<Longrightarrow> fst t \<in> set FLAG_KEYS"
proof (induction s rule: scan_flags.induct)
  case 1
  then show ?case by simp
next
  case (2 c t')
  show ?case
  proof (cases "match_flag (c # t')")
    case None
    with 2 show ?thesis by (simp add: Let_def)
  next
    case (Some m)
    with 2 match_flag_key [OF Some] show ?thesis by (auto simp: Let_def)
  qed
qed

lemma key_config:
  "k \<in> set FLAG_KEYS \<Longrightarrow> strip k = k \<and> FLAG_CONFIG icons k \<noteq> None"
  by (auto simp: FLAG_KEYS_def strip_def is_space_def whitespace_chars_def FLAG_CONFIG_def)

lemma parse_flag_valid:
  "st_valid (parse_flag up icons st t) = (st_valid st \<and> flag_msg up icons t = None)"
  by (auto simp: parse_flag_def flag_msg_def Let_def split: option.splits)

lemma parse_flag_err:
  "st_err (parse_flag up icons st t) = (case flag_msg up icons t of None \<Rightarrow> st_err st | Some m \<Rightarrow> Some m)"
  by (auto simp: parse_flag_def flag_msg_def Let_def split: option.splits)

lemma fold_valid:
  "st_valid (foldl (parse_flag up icons) st ts)
     = (st_valid st \<and> list_all (\<lambda>t. flag_msg up icons t = None) ts)"
  by (induction ts arbitrary: st) (auto simp: parse_flag_valid)

lemma fold_err:
  "st_err (foldl (parse_flag up icons) st ts)
     = (if List.map_filter (flag_msg up icons) ts = [] then st_err st
        else Some (last (List.map_filter (flag_msg up icons) ts)))"
proof (induction ts arbitrary: st)
  case Nil
  show ?case by (simp add: map_filter_simps)
next
  case (Cons t ts)
  show ?case
    by (cases "flag_msg up icons t")
       (simp_all add: Cons.IH parse_flag_err map_filter_simps)
qed

lemma parse_flag_known:
  assumes "fst t \<in> set FLAG_KEYS"
  shows "st_flags (parse_flag up icons st t) = st_flags st @ [(fst t, normalize_param up (snd t))]"
    and "st_active (parse_flag up icons st t) = insert (fst t) (st_active st)"
    and "st_icon (parse_flag up icons st t)
           = (if fst t = ''ICON'' \<and> normalize_param up (snd t) \<noteq> []
              then (if normalize_param up (snd t) \<in> icons then Some (normalize_param up (snd t))
                    else Some ''ERROR'')
              else st_icon st)"
proof -
  from key_config [OF assms, of icons] obtain rules where
    s: "strip (fst t) = fst t" and r: "FLAG_CONFIG icons (fst t) = Some rules" by auto
  show "st_flags (parse_flag up icons st t) = st_flags st @ [(fst t, normalize_param up (snd t))]"
    by (simp add: parse_flag_def s r Let_def)
  show "st_active (parse_flag up icons st t) = insert (fst t) (st_active st)"
    by (simp add: parse_flag_def s r Let_def)
  show "st_icon (parse_flag up icons st t)
           = (if fst t = ''ICON'' \<and> normalize_param up (snd t) \<noteq> []
              then (if normalize_param up (snd t) \<in> icons then Some (normalize_param up (snd t))
                    else Some ''ERROR'')
              else st_icon st)"
  proof (cases "fst t = ''ICON''")
    case True
    have s': "strip ''ICON'' = ''ICON''" using s True by simp
    have r': "FLAG_CONFIG icons ''ICON''
        = Some \<lparr>params = Str_param DYNAMIC_PARAM, validator = Some (\<lambda>x. x \<in> icons)\<rparr>"
      by (simp add: FLAG_CONFIG_def)
    show ?thesis
      by (simp add: parse_flag_def True s' r' Let_def check_flag_def check_params_def)
  next
    case False
    then show ?thesis by (simp add: parse_flag_def s r Let_def)
  qed
qed

lemma fold_known:
  assumes "\<forall>t \<in> set ts. fst t \<in> set FLAG_KEYS"
  shows "st_flags (foldl (parse_flag up icons) st ts)
           = st_flags st @ map (\<lambda>t. (fst t, normalize_param up (snd t))) ts
       \<and> st_active (foldl (parse_flag up icons) st ts) = st_active st \<union> fst ` set ts
       \<and> st_icon (foldl (parse_flag up icons) st ts)
           = (case filter (\<lambda>t. fst t = ''ICON'' \<and> snd t \<noteq> [])
                    (map (\<lambda>t. (fst t, normalize_param up (snd t))) ts) of
                [] \<Rightarrow> st_icon st
              | x # xs \<Rightarrow> (if snd (last (x # xs)) \<in> icons then Some (snd (last (x # xs)))
                           else Some ''ERROR''))"
  using assms
proof (induction ts rule: rev_induct)
  case Nil
  show ?case by simp
next
  case (snoc t ts)
  then have k: "fst t \<in> set FLAG_KEYS" and ih: "\<forall>t \<in> set ts. fst t \<in> set FLAG_KEYS" by auto
  note IH = snoc.IH [OF ih]
  show ?case
    using IH parse_flag_known [OF k, of up icons "foldl (parse_flag up icons) st ts"]
    by (auto split: list.splits)
qed

lemma parse_fields:
  "p_is_valid (parse_collection_name up icons raw)
     = (leftover_text raw = [] \<and> list_all (\<lambda>t. flag_msg up icons t = None) (flag_tuples raw))"
  "p_error_msg (parse_collection_name up icons raw)
     = (if List.map_filter (flag_msg up icons) (flag_tuples raw) = []
        then (if leftover_text raw \<noteq> [] then Some (''SYNTAX ERROR: '' @ leftover_text raw) else None)
        else Some (last (List.map_filter (flag_msg up icons) (flag_tuples raw))))"
  "p_clean_name (parse_collection_name up icons raw)
     = (if leftover_text raw \<noteq> [] then []
        else (case search_label raw of None \<Rightarrow> [] | Some m \<Rightarrow> strip (fst m)))"
  by (simp_all add: parse_collection_name_def Let_def fold_valid fold_err)

lemma flag_tuples_keys: "t \<in> set (flag_tuples raw) \<Longrightarrow> fst t \<in> set FLAG_KEYS"
  unfolding flag_tuples_def by (rule scan_flags_keys)

lemma other_keys_config:
  assumes "f \<in> set FLAG_KEYS" and "f \<noteq> ''ICON''" and "f \<noteq> ''FILTER''"
  shows "FLAG_CONFIG icons f = Some \<lparr>params = No_params, validator = None\<rparr>"
  using assms by (auto simp: FLAG_KEYS_def FLAG_CONFIG_def)

lemma flag_msg_explicit:
  assumes "fst t \<in> set FLAG_KEYS"
  shows "flag_msg up icons t =
     (if fst t = ''ICON'' then
        (if normalize_param up (snd t) = [] then Some (''SYNTAX ERROR: '' @ fst t @ '' missing parameter'')
         else if normalize_param up (snd t) \<notin> icons
           then Some (''SYNTAX ERROR: '' @ [quote] @ normalize_param up (snd t) @ [quote] @ '' invalid'')
         else None)
      else if fst t = ''FILTER'' then
        (if normalize_param up (snd t) \<noteq> [] \<and> normalize_param up (snd t) \<noteq> ''IFHIDDEN''
         then Some (''SYNTAX ERROR: '' @ [quote] @ normalize_param up (snd t) @ [quote]
                      @ '' is not valid for '' @ fst t)
         else None)
      else
        (if normalize_param up (snd t) \<noteq> []
         then Some (''SYNTAX ERROR: '' @ fst t @ '' takes no parameters'') else None))"
proof -
  from key_config [OF assms, of icons] have s: "strip (fst t) = fst t" by simp
  show ?thesis
  proof (cases "fst t = ''ICON''")
    case True
    have "FLAG_CONFIG icons ''ICON''
        = Some \<lparr>params = Str_param DYNAMIC_PARAM, validator = Some (\<lambda>x. x \<in> icons)\<rparr>"
      by (simp add: FLAG_CONFIG_def)
    with True s show ?thesis
      by (simp add: flag_msg_def check_flag_def check_params_def)
  next
    case nicon: False
    show ?thesis
    proof (cases "fst t = ''FILTER''")
      case True
      have "FLAG_CONFIG icons ''FILTER''
          = Some \<lparr>params = Set_params [''IFHIDDEN''], validator = None\<rparr>"
        by (simp add: FLAG_CONFIG_def)
      with True s show ?thesis
        by (simp add: flag_msg_def check_flag_def check_params_def DYNAMIC_PARAM_def)
    next
      case False
      from other_keys_config [OF assms nicon False, of icons] nicon False s show ?thesis
        by (simp add: flag_msg_def check_flag_def check_params_def)
    qed
  qed
qed

lemma flag_msg_accepts:
  assumes "fst t \<in> set FLAG_KEYS"
  shows "(flag_msg up icons t = None) =
     (if fst t = ''ICON'' then normalize_param up (snd t) \<noteq> [] \<and> normalize_param up (snd t) \<in> icons
      else if fst t = ''FILTER''
        then normalize_param up (snd t) = [] \<or> normalize_param up (snd t) = ''IFHIDDEN''
      else normalize_param up (snd t) = [])"
  by (simp add: flag_msg_explicit [OF assms])

text \<open>
  C3 (amended). Among the flag tuples found in a name (after the matched label text is
  deleted), a flag with a validator (ICON, whose domain is the dynamic marker) written
  without a parameter, or with one that normalizes to the empty string, gets the message
  "missing parameter" and makes the name invalid; a flag without a validator, FILTER with
  its fixed set of values included, gets no message when written without a parameter.
  The message of every tuple is: for ICON, "missing parameter" or "invalid" when the
  icon validator rejects the parameter; for FILTER, "is not valid for" when a parameter
  is given that is not IFHIDDEN; for every other flag, "takes no parameters" when a
  parameter is given. A name is valid exactly when nothing is left over and no tuple
  gets a message, and the error is the message of the last tuple that got one (the
  leftover error when none did): the last error wins.
\<close>

theorem parse_missing_parameter:
  "(\<forall>t rules. t \<in> set (flag_tuples raw) \<and> FLAG_CONFIG icons (fst t) = Some rules
        \<and> validator rules \<noteq> None \<and> normalize_param up (snd t) = [] \<longrightarrow>
        flag_msg up icons t = Some (''SYNTAX ERROR: '' @ fst t @ '' missing parameter'')
        \<and> \<not> p_is_valid (parse_collection_name up icons raw))
   \<and> (\<forall>t rules. t \<in> set (flag_tuples raw) \<and> FLAG_CONFIG icons (fst t) = Some rules
        \<and> validator rules = None \<and> normalize_param up (snd t) = [] \<longrightarrow>
        flag_msg up icons t = None)
   \<and> (\<forall>t \<in> set (flag_tuples raw). flag_msg up icons t =
        (if fst t = ''ICON'' then
           (if normalize_param up (snd t) = []
              then Some (''SYNTAX ERROR: '' @ fst t @ '' missing parameter'')
            else if normalize_param up (snd t) \<notin> icons
              then Some (''SYNTAX ERROR: '' @ [quote] @ normalize_param up (snd t) @ [quote] @ '' invalid'')
            else None)
         else if fst t = ''FILTER'' then
           (if normalize_param up (snd t) \<noteq> [] \<and> normalize_param up (snd t) \<noteq> ''IFHIDDEN''
            then Some (''SYNTAX ERROR: '' @ [quote] @ normalize_param up (snd t) @ [quote]
                         @ '' is not valid for '' @ fst t)
            else None)
         else
           (if normalize_param up (snd t) \<noteq> []
            then Some (''SYNTAX ERROR: '' @ fst t @ '' takes no parameters'') else None)))
   \<and> p_is_valid (parse_collection_name up icons raw)
       = (leftover_text raw = []
          \<and> list_all (\<lambda>t. if fst t = ''ICON''
                            then normalize_param up (snd t) \<noteq> [] \<and> normalize_param up (snd t) \<in> icons
                          else if fst t = ''FILTER''
                            then normalize_param up (snd t) = [] \<or> normalize_param up (snd t) = ''IFHIDDEN''
                          else normalize_param up (snd t) = [])
               (flag_tuples raw))
   \<and> p_error_msg (parse_collection_name up icons raw)
       = (if List.map_filter (flag_msg up icons) (flag_tuples raw) = []
          then (if leftover_text raw \<noteq> [] then Some (''SYNTAX ERROR: '' @ leftover_text raw) else None)
          else Some (last (List.map_filter (flag_msg up icons) (flag_tuples raw))))"
proof (intro conjI allI impI ballI)
  fix t rules
  assume a: "t \<in> set (flag_tuples raw) \<and> FLAG_CONFIG icons (fst t) = Some rules
        \<and> validator rules \<noteq> None \<and> normalize_param up (snd t) = []"
  then have "fst t \<in> set FLAG_KEYS" using flag_tuples_keys by blast
  then have s: "strip (fst t) = fst t" using key_config by blast
  from a obtain v where v: "validator rules = Some v" by auto
  have "check_params (params rules) (fst t) [] = None"
    by (cases "params rules") (simp_all add: check_params_def)
  with a s v show m: "flag_msg up icons t = Some (''SYNTAX ERROR: '' @ fst t @ '' missing parameter'')"
    by (simp add: flag_msg_def check_flag_def)
  from a m have "\<not> list_all (\<lambda>t. flag_msg up icons t = None) (flag_tuples raw)"
    by (auto simp: list_all_iff)
  then show "\<not> p_is_valid (parse_collection_name up icons raw)"
    by (simp add: parse_fields)
next
  fix t rules
  assume a: "t \<in> set (flag_tuples raw) \<and> FLAG_CONFIG icons (fst t) = Some rules
        \<and> validator rules = None \<and> normalize_param up (snd t) = []"
  then have "fst t \<in> set FLAG_KEYS" using flag_tuples_keys by blast
  then have s: "strip (fst t) = fst t" using key_config by blast
  have "check_params (params rules) (fst t) [] = None"
    by (cases "params rules") (simp_all add: check_params_def)
  with a s show "flag_msg up icons t = None"
    by (simp add: flag_msg_def check_flag_def)
next
  fix t assume "t \<in> set (flag_tuples raw)"
  then have "fst t \<in> set FLAG_KEYS" by (rule flag_tuples_keys)
  then show "flag_msg up icons t =
        (if fst t = ''ICON'' then
           (if normalize_param up (snd t) = []
              then Some (''SYNTAX ERROR: '' @ fst t @ '' missing parameter'')
            else if normalize_param up (snd t) \<notin> icons
              then Some (''SYNTAX ERROR: '' @ [quote] @ normalize_param up (snd t) @ [quote] @ '' invalid'')
            else None)
         else if fst t = ''FILTER'' then
           (if normalize_param up (snd t) \<noteq> [] \<and> normalize_param up (snd t) \<noteq> ''IFHIDDEN''
            then Some (''SYNTAX ERROR: '' @ [quote] @ normalize_param up (snd t) @ [quote]
                         @ '' is not valid for '' @ fst t)
            else None)
         else
           (if normalize_param up (snd t) \<noteq> []
            then Some (''SYNTAX ERROR: '' @ fst t @ '' takes no parameters'') else None))"
    by (rule flag_msg_explicit)
next
  have "list_all (\<lambda>t. flag_msg up icons t = None) (flag_tuples raw)
      = list_all (\<lambda>t. if fst t = ''ICON''
                            then normalize_param up (snd t) \<noteq> [] \<and> normalize_param up (snd t) \<in> icons
                          else if fst t = ''FILTER''
                            then normalize_param up (snd t) = [] \<or> normalize_param up (snd t) = ''IFHIDDEN''
                          else normalize_param up (snd t) = [])
               (flag_tuples raw)"
    unfolding list_all_iff
    by (rule ball_cong [OF refl]) (rule flag_msg_accepts, rule flag_tuples_keys)
  then show "p_is_valid (parse_collection_name up icons raw)
       = (leftover_text raw = []
          \<and> list_all (\<lambda>t. if fst t = ''ICON''
                            then normalize_param up (snd t) \<noteq> [] \<and> normalize_param up (snd t) \<in> icons
                          else if fst t = ''FILTER''
                            then normalize_param up (snd t) = [] \<or> normalize_param up (snd t) = ''IFHIDDEN''
                          else normalize_param up (snd t) = [])
               (flag_tuples raw))"
    by (simp add: parse_fields)
qed (simp_all add: parse_fields)

theorem parse_missing_parameter_witness:
  "(''ICON'', []) \<in> set (flag_tuples ''(FILTER)(HIDE)[x](ICON)'')
   \<and> (''FILTER'', []) \<in> set (flag_tuples ''(FILTER)(HIDE)[x](ICON)'')
   \<and> flag_msg ascii_up {} (''FILTER'', []) = None
   \<and> \<not> p_is_valid (parse_collection_name ascii_up {} ''(FILTER)(HIDE)[x](ICON)'')
   \<and> p_error_msg (parse_collection_name ascii_up {} ''(FILTER)(HIDE)[x](ICON)'')
       = Some ''SYNTAX ERROR: ICON missing parameter''"
proof -
  have t: "(''ICON'', []) \<in> set (flag_tuples ''(FILTER)(HIDE)[x](ICON)'')"
    by (simp add: parse_eval)
  have u: "(''FILTER'', []) \<in> set (flag_tuples ''(FILTER)(HIDE)[x](ICON)'')"
    by (simp add: parse_eval)
  have r: "FLAG_CONFIG {} (fst (''ICON'', [])) =
      Some \<lparr>params = Str_param DYNAMIC_PARAM, validator = Some (\<lambda>x. x \<in> {})\<rparr>"
    by (simp add: FLAG_CONFIG_def)
  have q: "FLAG_CONFIG {} (fst (''FILTER'', [])) =
      Some \<lparr>params = Set_params [''IFHIDDEN''], validator = None\<rparr>"
    by (simp add: FLAG_CONFIG_def)
  have n: "normalize_param ascii_up (snd (''ICON'', [])) = []"
    "normalize_param ascii_up (snd (''FILTER'', [])) = []"
    by (simp_all add: normalize_param_def)
  have v: "validator \<lparr>params = Str_param DYNAMIC_PARAM, validator = Some (\<lambda>x. x \<in> {})\<rparr> \<noteq> None"
    "validator \<lparr>params = Set_params [''IFHIDDEN''], validator = None\<rparr> = None"
    by simp_all
  note th = parse_missing_parameter [of "''(FILTER)(HIDE)[x](ICON)''" "{}" ascii_up]
  from th [THEN conjunct1, rule_format, of "(''ICON'', [])"] t r n v
  have a: "\<not> p_is_valid (parse_collection_name ascii_up {} ''(FILTER)(HIDE)[x](ICON)'')" by blast
  from th [THEN conjunct2, THEN conjunct1, rule_format, of "(''FILTER'', [])"] u q n v
  have b: "flag_msg ascii_up {} (''FILTER'', []) = None" by blast
  have c: "p_error_msg (parse_collection_name ascii_up {} ''(FILTER)(HIDE)[x](ICON)'')
       = Some ''SYNTAX ERROR: ICON missing parameter''"
    by (simp add: parse_eval)
  from a b c t u show ?thesis by blast
qed

text \<open>
  C3 as stated rejects every flag whose domain is a fixed set of values when it is
  written without a parameter. The name "(FILTER)" parses valid, with no error.
\<close>

theorem parse_bare_filter_counterexample:
  "FLAG_CONFIG {} ''FILTER'' = Some \<lparr>params = Set_params [''IFHIDDEN''], validator = None\<rparr>
   \<and> flag_tuples ''(FILTER)'' = [(''FILTER'', [])]
   \<and> p_is_valid (parse_collection_name ascii_up {} ''(FILTER)'')
   \<and> p_error_msg (parse_collection_name ascii_up {} ''(FILTER)'') = None"
  by (simp add: parse_eval)






text \<open>
  C9 (amended). The flags output is the set of the flag keywords of all tuples, whether
  or not an occurrence got a message; the flag list is the tuples in their order, with
  duplicates, each parameter normalized; the icon is decided by the last ICON
  occurrence with a non-empty parameter: that parameter when the validator accepts it,
  the string "ERROR" when it does not, and no icon when there is no such occurrence.
\<close>

theorem parse_flags_and_icon:
  "p_active_flags (parse_collection_name up icons raw) = fst ` set (flag_tuples raw)
   \<and> p_flag_list (parse_collection_name up icons raw)
       = map (\<lambda>t. (fst t, normalize_param up (snd t))) (flag_tuples raw)
   \<and> p_icon_name (parse_collection_name up icons raw)
       = (case filter (\<lambda>t. fst t = ''ICON'' \<and> snd t \<noteq> [])
                (p_flag_list (parse_collection_name up icons raw)) of
            [] \<Rightarrow> None
          | x # xs \<Rightarrow> (if snd (last (x # xs)) \<in> icons then Some (snd (last (x # xs)))
                       else Some ''ERROR''))"
proof -
  have k: "\<forall>t \<in> set (flag_tuples raw). fst t \<in> set FLAG_KEYS"
    using flag_tuples_keys by blast
  show ?thesis
    using fold_known [OF k, of up icons]
    by (simp add: parse_collection_name_def Let_def split: list.splits)
qed

theorem parse_flags_and_icon_witness:
  "p_active_flags (parse_collection_name ascii_up {''BONE_DATA''} ''{Arm}(JOIN)(ICON)['BONE_DATA']'')
     = {''JOIN'', ''ICON''}
   \<and> p_flag_list (parse_collection_name ascii_up {''BONE_DATA''} ''{Arm}(JOIN)(ICON)['BONE_DATA']'')
     = [(''JOIN'', []), (''ICON'', ''BONE_DATA'')]
   \<and> p_icon_name (parse_collection_name ascii_up {''BONE_DATA''} ''{Arm}(JOIN)(ICON)['BONE_DATA']'')
     = Some ''BONE_DATA''"
proof -
  have a: "fst ` set (flag_tuples ''{Arm}(JOIN)(ICON)['BONE_DATA']'') = {''JOIN'', ''ICON''}"
    by (simp add: parse_eval)
  from parse_flags_and_icon [of ascii_up "{''BONE_DATA''}" "''{Arm}(JOIN)(ICON)['BONE_DATA']''"]
  have "p_active_flags (parse_collection_name ascii_up {''BONE_DATA''} ''{Arm}(JOIN)(ICON)['BONE_DATA']'')
     = fst ` set (flag_tuples ''{Arm}(JOIN)(ICON)['BONE_DATA']'')" by blast
  then have A: "p_active_flags (parse_collection_name ascii_up {''BONE_DATA''} ''{Arm}(JOIN)(ICON)['BONE_DATA']'')
     = {''JOIN'', ''ICON''}" by (simp only: a)
  have B: "p_flag_list (parse_collection_name ascii_up {''BONE_DATA''} ''{Arm}(JOIN)(ICON)['BONE_DATA']'')
     = [(''JOIN'', []), (''ICON'', ''BONE_DATA'')]"
    by (simp add: parse_eval)
  have C: "p_icon_name (parse_collection_name ascii_up {''BONE_DATA''} ''{Arm}(JOIN)(ICON)['BONE_DATA']'')
     = Some ''BONE_DATA''"
    by (simp add: parse_eval)
  from A B C show ?thesis by blast
qed

text \<open>
  C9 as stated makes the icon the parameter of the last valid ICON occurrence. After the
  valid "(ICON)[a]", a second occurrence with an unknown icon name sets the icon to
  "ERROR".
\<close>

theorem parse_icon_error_counterexample:
  "p_flag_list (parse_collection_name ascii_up {''A''} ''(ICON)[a](ICON)[b]'')
     = [(''ICON'', ''A''), (''ICON'', ''B'')]
   \<and> p_is_valid (parse_collection_name ascii_up {''A''} ''(ICON)[a]'')
   \<and> p_icon_name (parse_collection_name ascii_up {''A''} ''(ICON)[a]'') = Some ''A''
   \<and> p_icon_name (parse_collection_name ascii_up {''A''} ''(ICON)[a](ICON)[b]'') = Some ''ERROR''"
  by (simp add: parse_eval)

section \<open>Tree scanner: proofs\<close>







end
